theory Spec2Isabelle
  imports Main
begin

section \<open>The LRU cache of \<open>src/core/lru_std.hpp\<close>\<close>

text \<open>
  The class \<open>lru_cache_using_std<K, V, MAP>\<close> memoises a function \<open>V f(K)\<close> in a map
  from keys to pairs of a value and an iterator into a \<open>std::list\<close> of keys, the list
  being kept in order of access, least recently used key first.

  The embedding makes explicit what the C++ leaves implicit:
  \<^item> the cached function is called through a pointer and may throw; it is a function
    into a sum, \<open>Inl\<close> carrying what was thrown;
  \<^item> \<open>assert\<close> is the macro of \<open><cassert>\<close> as the header is written, with \<open>NDEBUG\<close>
    not defined: a false condition aborts the program;
  \<^item> a \<open>std::list\<close> iterator is the identity of a list node. The list is the
    sequence of its nodes, each a pair of its identity and the key it holds, so
    that moving a node keeps the iterators to it valid, as \<open>splice\<close> does;
  \<^item> using an iterator that refers to no node of the list is undefined behaviour,
    and is a failure of its own;
  \<^item> \<open>size_t\<close> values are natural numbers: the code only compares them for equality
    and never does arithmetic on them. Memory is taken to be sufficient: no
    container operation throws \<open>std::bad_alloc\<close>.

  Beside the result and the new state, every operation returns the list of the
  effects it had, in order: the calls of the cached function and the keys purged.
  Only the methods of the class change a cache; writes through the reference that
  \<open>operator[]\<close> returns are outside the model.
\<close>

subsection \<open>Data\<close>

text \<open>
  What ends a call other than a return: an exception of the cached function, carried
  as thrown; a failed \<open>assert\<close>; undefined behaviour.
\<close>

datatype 'e failure = Fn_threw 'e | Assertion_failed | Undefined_behaviour

text \<open>The effects recorded: a call of the cached function at a key, the purge of a key.\<close>

datatype 'k event = Invoked 'k | Evicted 'k

text \<open>
  The typedefs of the class (lines 27 to 39) and its four members (lines 185 to 194).
  A node is named by a number, which is what a \<open>key_tracker_type::iterator\<close> holds.
\<close>

type_synonym node = nat

type_synonym 'k key_tracker_type = "(node \<times> 'k) list"

type_synonym ('k, 'v) key_to_value_type = "'k \<rightharpoonup> ('v \<times> node)"

text \<open>An iterator into the map: \<open>None\<close> is \<open>end()\<close>, \<open>Some k\<close> refers to the record of \<open>k\<close>.\<close>

type_synonym 'k iterator = "'k option"

record ('k, 'v, 'e) lru_cache_using_std =
  m_fn :: "'k \<Rightarrow> 'e + 'v"
  m_capacity :: nat
  m_key_tracker :: "'k key_tracker_type"
  m_key_to_value :: "('k, 'v) key_to_value_type"

type_synonym ('k, 'v, 'e, 'a) effect =
  "'k event list \<times> ('e failure + 'a) \<times> ('k, 'v, 'e) lru_cache_using_std"

subsection \<open>The containers\<close>

text \<open>
  \<open>std::list::insert\<close> allocates a node. The node it returns is distinct from
  every node of the list; the model takes the least number above all of them.
\<close>

fun new_node :: "'k key_tracker_type \<Rightarrow> node" where
  "new_node [] = 0"
| "new_node ((n, k) # xs) = max (Suc n) (new_node xs)"

text \<open>
  \<open>list.splice(list.end(), list, it)\<close> unlinks the node \<open>it\<close> refers to and links it
  in again at the back. The node keeps its identity.
\<close>

definition splice_end :: "'k key_tracker_type \<Rightarrow> node \<Rightarrow> 'k key_tracker_type option" where
  "splice_end xs it =
     (case List.find (\<lambda>x. fst x = it) xs of
        None \<Rightarrow> None
      | Some x \<Rightarrow> Some (filter (\<lambda>y. fst y \<noteq> it) xs @ [x]))"

text \<open>\<open>std::map::insert\<close> and \<open>std::unordered_map::insert\<close> leave a key already present alone.\<close>

definition map_insert :: "('k \<rightharpoonup> 'a) \<Rightarrow> 'k \<Rightarrow> 'a \<Rightarrow> ('k \<rightharpoonup> 'a)" where
  "map_insert m k x = (if m k = None then m(k \<mapsto> x) else m)"

subsection \<open>Construction and the observers\<close>

text \<open>
  The constructor (lines 43 to 51) initialises \<open>_fn\<close> and \<open>_capacity\<close>, the containers
  being empty by default, and then asserts \<open>_capacity != 0\<close>.
\<close>

definition lru_cache_using_std ::
  "('k \<Rightarrow> 'e + 'v) \<Rightarrow> nat \<Rightarrow> 'e failure + ('k, 'v, 'e) lru_cache_using_std" where
  "lru_cache_using_std f c =
     (let s = \<lparr>m_fn = f, m_capacity = c, m_key_tracker = [], m_key_to_value = Map.empty\<rparr>
      in if m_capacity s \<noteq> 0 then Inr s else Inl Assertion_failed)"

text \<open>
  \<open>capacity()\<close>, \<open>size()\<close>, \<open>empty()\<close>, \<open>full()\<close>, \<open>find(k)\<close> and \<open>get_keys(dst)\<close>
  (lines 92 to 137). The size of the map is the number of its keys; \<open>get_keys\<close> writes the
  keys of the list from its back to its front.
\<close>

definition capacity :: "('k, 'v, 'e) lru_cache_using_std \<Rightarrow> nat" where
  "capacity s = m_capacity s"

definition size_cache :: "('k, 'v, 'e) lru_cache_using_std \<Rightarrow> nat" where
  "size_cache s = card (dom (m_key_to_value s))"

definition empty_cache :: "('k, 'v, 'e) lru_cache_using_std \<Rightarrow> bool" where
  "empty_cache s \<longleftrightarrow> dom (m_key_to_value s) = {}"

definition full :: "('k, 'v, 'e) lru_cache_using_std \<Rightarrow> bool" where
  "full s \<longleftrightarrow> size_cache s = m_capacity s"

definition find_cache :: "('k, 'v, 'e) lru_cache_using_std \<Rightarrow> 'k \<Rightarrow> 'k iterator" where
  "find_cache s k = (case m_key_to_value s k of None \<Rightarrow> None | Some _ \<Rightarrow> Some k)"

definition get_keys :: "('k, 'v, 'e) lru_cache_using_std \<Rightarrow> 'k list" where
  "get_keys s = rev (map snd (m_key_tracker s))"

text \<open>
  \<open>front()\<close> (lines 110 to 120): the end iterator when the list is empty, otherwise the
  result of \<open>find\<close> at the key of the first node, asserted not to be the end iterator.
  The method is not \<open>const\<close>; the model returns the state with the result, so that what
  the method does to the cache is a statement about the code.
\<close>

definition front :: "('k, 'v, 'e) lru_cache_using_std \<Rightarrow>
    ('e failure + 'k iterator) \<times> ('k, 'v, 'e) lru_cache_using_std" where
  "front s =
     (case m_key_tracker s of
        [] \<Rightarrow> (Inr None, s)
      | (n, k) # rest \<Rightarrow>
          (case find_cache s k of
             None \<Rightarrow> (Inl Assertion_failed, s)
           | Some k' \<Rightarrow> (Inr (Some k'), s)))"

subsection \<open>Eviction, insertion and lookup\<close>

text \<open>
  \<open>evict()\<close> (lines 169 to 182) asserts that the list is not empty, finds the record of
  the key in its first node, asserts that there is one, erases it and pops the node.
\<close>

definition evict :: "('k, 'v, 'e) lru_cache_using_std \<Rightarrow> ('k, 'v, 'e, unit) effect" where
  "evict s =
     (case m_key_tracker s of
        [] \<Rightarrow> ([], Inl Assertion_failed, s)
      | (n, k) # rest \<Rightarrow>
          (case find_cache s k of
             None \<Rightarrow> ([], Inl Assertion_failed, s)
           | Some k' \<Rightarrow>
               ([Evicted k'], Inr (),
                s\<lparr>m_key_to_value := (m_key_to_value s)(k' := None), m_key_tracker := rest\<rparr>)))"

text \<open>
  \<open>insert(k, v)\<close> (lines 142 to 166) asserts that \<open>k\<close> has no record, evicts when the
  map holds \<open>_capacity\<close> records, links a new node holding \<open>k\<close> at the back of the list
  and inserts the record of \<open>k\<close>, with \<open>v\<close> and the iterator to the new node, into the
  map. It returns the iterator that the insertion into the map returns.
\<close>

definition insert_cache ::
  "('k, 'v, 'e) lru_cache_using_std \<Rightarrow> 'k \<Rightarrow> 'v \<Rightarrow> ('k, 'v, 'e, 'k iterator) effect" where
  "insert_cache s k v =
     (if find_cache s k \<noteq> None then ([], Inl Assertion_failed, s)
      else
        (case (if size_cache s = m_capacity s then evict s else ([], Inr (), s)) of
           (evs, Inl e, s1) \<Rightarrow> (evs, Inl e, s1)
         | (evs, Inr _, s1) \<Rightarrow>
             (let it = new_node (m_key_tracker s1);
                  s2 = s1\<lparr>m_key_tracker := m_key_tracker s1 @ [(it, k)]\<rparr>;
                  s3 = s2\<lparr>m_key_to_value := map_insert (m_key_to_value s2) k (v, it)\<rparr>
              in (evs, Inr (Some k), s3))))"

text \<open>
  \<open>operator[](k)\<close> (lines 54 to 87). Without a record of \<open>k\<close> it calls the cached
  function, before anything else, inserts the result and returns the value read through
  the iterator that \<open>insert\<close> returned. With a record it splices the node the record
  refers to to the back of the list and returns the value of the record.
\<close>

definition operator_subscript ::
  "('k, 'v, 'e) lru_cache_using_std \<Rightarrow> 'k \<Rightarrow> ('k, 'v, 'e, 'v) effect" where
  "operator_subscript s k =
     (case m_key_to_value s k of
        None \<Rightarrow>
          (case m_fn s k of
             Inl x \<Rightarrow> ([Invoked k], Inl (Fn_threw x), s)
           | Inr v \<Rightarrow>
               (case insert_cache s k v of
                  (evs, Inl e, s1) \<Rightarrow> (Invoked k # evs, Inl e, s1)
                | (evs, Inr it, s1) \<Rightarrow>
                    (case (case it of None \<Rightarrow> None | Some k' \<Rightarrow> m_key_to_value s1 k') of
                       None \<Rightarrow> (Invoked k # evs, Inl Undefined_behaviour, s1)
                     | Some (v', n) \<Rightarrow> (Invoked k # evs, Inr v', s1))))
      | Some (v, it) \<Rightarrow>
          (case splice_end (m_key_tracker s) it of
             None \<Rightarrow> ([], Inl Undefined_behaviour, s)
           | Some xs \<Rightarrow> ([], Inr v, s\<lparr>m_key_tracker := xs\<rparr>)))"

subsection \<open>Sequences of calls\<close>

datatype 'k call =
  Subscript 'k | Get_keys | Begin | End | Find 'k | Front | Capacity | Size | Empty | Full

text \<open>
  A call of a method, its result forgotten. Only \<open>operator[]\<close> and \<open>front()\<close> have
  a body that can fail; the other methods return a member or a value read from one.
\<close>

definition perform :: "('k, 'v, 'e) lru_cache_using_std \<Rightarrow> 'k call \<Rightarrow> ('k, 'v, 'e, unit) effect" where
  "perform s c =
     (case c of
        Subscript k \<Rightarrow>
          (case operator_subscript s k of (evs, r, s1) \<Rightarrow> (evs, map_sum id (\<lambda>_. ()) r, s1))
      | Front \<Rightarrow> (case front s of (r, s1) \<Rightarrow> ([], map_sum id (\<lambda>_. ()) r, s1))
      | _ \<Rightarrow> ([], Inr (), s))"

text \<open>
  An exception thrown by the cached function reaches the caller, who may go on using
  the cache; a failed assertion or undefined behaviour ends the run.
\<close>

fun fatal :: "'e failure \<Rightarrow> bool" where
  "fatal (Fn_threw x) = False"
| "fatal Assertion_failed = True"
| "fatal Undefined_behaviour = True"

fun run :: "('k, 'v, 'e) lru_cache_using_std \<Rightarrow> 'k call list \<Rightarrow>
    'e failure + 'k event list \<times> ('k, 'v, 'e) lru_cache_using_std" where
  "run s [] = Inr ([], s)"
| "run s (c # cs) =
     (case perform s c of
        (evs, r, s1) \<Rightarrow>
          (case (case r of Inl e \<Rightarrow> if fatal e then Some e else None | Inr _ \<Rightarrow> None) of
             Some e \<Rightarrow> Inl e
           | None \<Rightarrow> map_sum id (\<lambda>(evs', s2). (evs @ evs', s2)) (run s1 cs)))"

text \<open>The keys purged and the arguments of the cached function in a list of effects.\<close>

fun evictions :: "'k event list \<Rightarrow> 'k list" where
  "evictions [] = []"
| "evictions (Evicted k # es) = k # evictions es"
| "evictions (Invoked k # es) = evictions es"

fun invocations :: "'k event list \<Rightarrow> 'k list" where
  "invocations [] = []"
| "invocations (Invoked k # es) = k # invocations es"
| "invocations (Evicted k # es) = invocations es"

subsection \<open>Example data\<close>

text \<open>
  The function of the example in the specification, \<open>square\<close>, here throwing from \<open>10\<close> on;
  a cache of capacity \<open>2\<close> over it as constructed, and as it is after looking up \<open>2\<close> and
  then \<open>3\<close>. The theorems are instantiated at them.
\<close>

definition square :: "nat \<Rightarrow> string + nat" where
  "square x = (if x < 10 then Inr (x * x) else Inl ''out of range'')"

definition cache_new :: "(nat, nat, string) lru_cache_using_std" where
  "cache_new = \<lparr>m_fn = square, m_capacity = 2, m_key_tracker = [], m_key_to_value = Map.empty\<rparr>"

definition cache_2_3 :: "(nat, nat, string) lru_cache_using_std" where
  "cache_2_3 = \<lparr>m_fn = square, m_capacity = 2, m_key_tracker = [(0, 2), (1, 3)],
     m_key_to_value = [2 \<mapsto> (4, 0), 3 \<mapsto> (9, 1)]\<rparr>"

subsection \<open>The representation invariant\<close>

text \<open>The keys in order of access, least recently used first.\<close>

definition keys_of :: "('k, 'v, 'e) lru_cache_using_std \<Rightarrow> 'k list" where
  "keys_of s = map snd (m_key_tracker s)"

text \<open>
  The capacity is positive and bounds the number of nodes; no two nodes of the list share
  an identity or a key; the map has a record exactly for the keys of the list; the
  iterator of the record of \<open>k\<close> is the node that holds \<open>k\<close>, and its value is the
  one the cached function returns for \<open>k\<close>.
\<close>

definition invar :: "('k, 'v, 'e) lru_cache_using_std \<Rightarrow> bool" where
  "invar s \<longleftrightarrow>
     0 < m_capacity s \<and>
     length (m_key_tracker s) \<le> m_capacity s \<and>
     distinct (map fst (m_key_tracker s)) \<and>
     distinct (map snd (m_key_tracker s)) \<and>
     dom (m_key_to_value s) = set (map snd (m_key_tracker s)) \<and>
     (\<forall>k v n. m_key_to_value s k = Some (v, n) \<longrightarrow>
        (n, k) \<in> set (m_key_tracker s) \<and> m_fn s k = Inr v)"

section \<open>Properties\<close>

subsection \<open>Nodes and iterators\<close>

lemma new_node_fresh: "(n, k) \<in> set xs \<Longrightarrow> n < new_node xs"
  by (induction xs rule: new_node.induct) auto

lemma new_node_notin: "new_node xs \<notin> fst ` set xs"
  using new_node_fresh by fastforce

lemma find_node:
  "distinct (map fst xs) \<Longrightarrow> (n, k) \<in> set xs \<Longrightarrow> List.find (\<lambda>x. fst x = n) xs = Some (n, k)"
  by (induction xs) (auto simp: rev_image_eqI)

lemma splice_end_node:
  "distinct (map fst xs) \<Longrightarrow> (n, k) \<in> set xs \<Longrightarrow>
   splice_end xs n = Some (filter (\<lambda>y. fst y \<noteq> n) xs @ [(n, k)])"
  by (simp add: splice_end_def find_node)

lemma filter_node_key:
  "distinct (map fst xs) \<Longrightarrow> distinct (map snd xs) \<Longrightarrow> (n, k) \<in> set xs \<Longrightarrow>
   filter (\<lambda>y. fst y \<noteq> n) xs = filter (\<lambda>y. snd y \<noteq> k) xs"
proof (rule filter_cong[OF refl])
  fix y assume y: "y \<in> set xs"
  assume d1: "distinct (map fst xs)" and d2: "distinct (map snd xs)" and m: "(n, k) \<in> set xs"
  from d1 y m have "fst y = n \<Longrightarrow> y = (n, k)"
    by (metis distinct_map fst_conv inj_onD)
  moreover from d2 y m have "snd y = k \<Longrightarrow> y = (n, k)"
    by (metis distinct_map snd_conv inj_onD)
  ultimately show "(fst y \<noteq> n) = (snd y \<noteq> k)" by (metis fst_conv snd_conv)
qed

lemma size_cache_invar: "invar s \<Longrightarrow> size_cache s = length (m_key_tracker s)"
  unfolding invar_def size_cache_def
  by (metis distinct_card length_map)

lemma subscript_throw:
  "m_key_to_value s k = None \<Longrightarrow> m_fn s k = Inl x \<Longrightarrow>
   operator_subscript s k = ([Invoked k], Inl (Fn_threw x), s)"
  by (simp add: operator_subscript_def)

lemma subscript_hit:
  assumes "invar s" "m_key_to_value s k = Some (v, n)"
  shows "operator_subscript s k =
    ([], Inr v, s\<lparr>m_key_tracker := filter (\<lambda>y. snd y \<noteq> k) (m_key_tracker s) @ [(n, k)]\<rparr>)"
proof -
  from assms have d: "distinct (map fst (m_key_tracker s))" "distinct (map snd (m_key_tracker s))"
    and m: "(n, k) \<in> set (m_key_tracker s)"
    by (auto simp: invar_def)
  show ?thesis
    using assms(2) by (simp add: operator_subscript_def splice_end_node[OF d(1) m] filter_node_key[OF d m])
qed

lemma subscript_miss_room:
  assumes "invar s" "m_key_to_value s k = None" "m_fn s k = Inr v"
    "length (m_key_tracker s) \<noteq> m_capacity s"
  shows "operator_subscript s k =
    ([Invoked k], Inr v,
     s\<lparr>m_key_tracker := m_key_tracker s @ [(new_node (m_key_tracker s), k)],
       m_key_to_value := (m_key_to_value s)(k \<mapsto> (v, new_node (m_key_tracker s)))\<rparr>)"
  using assms
  by (simp add: operator_subscript_def insert_cache_def find_cache_def size_cache_invar
      map_insert_def Let_def)

lemma subscript_miss_full:
  assumes "invar s" "m_key_to_value s k = None" "m_fn s k = Inr v"
    "length (m_key_tracker s) = m_capacity s"
  shows "\<exists>n0 k0 rest. m_key_tracker s = (n0, k0) # rest \<and> operator_subscript s k =
    ([Invoked k, Evicted k0], Inr v,
     s\<lparr>m_key_tracker := rest @ [(new_node rest, k)],
       m_key_to_value := ((m_key_to_value s)(k0 := None))(k \<mapsto> (v, new_node rest))\<rparr>)"
proof -
  from assms obtain n0 k0 rest where t: "m_key_tracker s = (n0, k0) # rest"
    by (cases "m_key_tracker s") (auto simp: invar_def)
  with assms(1) have "k0 \<in> dom (m_key_to_value s)" by (simp add: invar_def)
  then obtain e where e: "m_key_to_value s k0 = Some e" by auto
  with assms(2) have ne: "k0 \<noteq> k" by auto
  show ?thesis
    using assms t e ne
    by (simp add: operator_subscript_def insert_cache_def find_cache_def size_cache_invar
      map_insert_def Let_def evict_def)
qed


subsection \<open>The invariant is established and kept\<close>

lemma invar_init: "c \<noteq> 0 \<Longrightarrow> lru_cache_using_std f c = Inr s \<Longrightarrow> invar s"
  by (auto simp: lru_cache_using_std_def invar_def Let_def)

lemma invar_hit:
  assumes "invar s" "m_key_to_value s k = Some (v, n)"
  shows "invar (s\<lparr>m_key_tracker := filter (\<lambda>y. snd y \<noteq> k) (m_key_tracker s) @ [(n, k)]\<rparr>)"
proof -
  define T where "T = m_key_tracker s"
  define T' where "T' = filter (\<lambda>y. snd y \<noteq> k) T @ [(n, k)]"
  from assms have d: "distinct (map fst T)" "distinct (map snd T)"
    and m: "(n, k) \<in> set T"
    by (auto simp: invar_def T_def)
  have f: "T' = filter (\<lambda>y. fst y \<noteq> n) T @ [(n, k)]"
    using filter_node_key[OF d m] by (simp add: T'_def)
  have one: "\<And>y. y \<in> set T \<Longrightarrow> fst y = n \<Longrightarrow> y = (n, k)"
    using d(1) m by (metis distinct_map fst_conv inj_onD)
  have "set T' = {y \<in> set T. fst y \<noteq> n} \<union> {(n, k)}"
    unfolding f by simp
  also have "\<dots> = set T"
    using one m by blast
  finally have set_eq: "set T' = set T" .
  have d1: "distinct (map fst T')"
    unfolding f using d(1) by (auto simp: distinct_map_filter)
  have d2: "distinct (map snd T')"
    unfolding T'_def using d(2) by (auto simp: distinct_map_filter)
  have "distinct T'" using d1 by (simp only: distinct_map)
  moreover have "distinct T" using d(1) by (simp only: distinct_map)
  ultimately have len: "length T' = length T"
    using set_eq distinct_card[of T] distinct_card[of T'] by simp
  have keys: "set (map snd T') = set (map snd T)"
    using set_eq by simp
  have "invar (s\<lparr>m_key_tracker := T'\<rparr>)"
    using assms(1) d1 d2 len keys set_eq
    by (simp add: invar_def T_def)
  then show ?thesis by (simp add: T'_def T_def)
qed

lemma invar_miss_room:
  assumes "invar s" "m_key_to_value s k = None" "m_fn s k = Inr v"
    "length (m_key_tracker s) \<noteq> m_capacity s"
  shows "invar (s\<lparr>m_key_tracker := m_key_tracker s @ [(new_node (m_key_tracker s), k)],
       m_key_to_value := (m_key_to_value s)(k \<mapsto> (v, new_node (m_key_tracker s)))\<rparr>)"
proof -
  from assms(1) have "dom (m_key_to_value s) = set (map snd (m_key_tracker s))"
    by (simp add: invar_def)
  with assms(2) have "k \<notin> snd ` set (m_key_tracker s)"
    by (metis domIff set_map)
  then show ?thesis
    using assms new_node_notin[of "m_key_tracker s"]
    by (auto simp: invar_def)
qed

lemma invar_miss_full:
  assumes "invar s" "m_key_to_value s k = None" "m_fn s k = Inr v"
    "m_key_tracker s = (n0, k0) # rest"
  shows "invar (s\<lparr>m_key_tracker := rest @ [(new_node rest, k)],
       m_key_to_value := ((m_key_to_value s)(k0 := None))(k \<mapsto> (v, new_node rest))\<rparr>)"
proof -
  let ?M = "m_key_to_value s"
  from assms(1) have dm: "dom ?M = set (map snd (m_key_tracker s))"
    by (simp add: invar_def)
  with assms(2) have kn: "k \<notin> snd ` set (m_key_tracker s)"
    by (metis domIff set_map)
  from assms(1,4) have d: "distinct (map fst rest)" "distinct (map snd rest)"
    "k0 \<notin> snd ` set rest" "Suc (length rest) \<le> m_capacity s" "0 < m_capacity s"
    by (auto simp: invar_def)
  from assms(1) have link: "\<And>k' v' n'. ?M k' = Some (v', n') \<Longrightarrow>
      (n', k') \<in> set (m_key_tracker s) \<and> m_fn s k' = Inr v'"
    unfolding invar_def by blast
  have l: "\<And>k' v' n'. k' \<noteq> k0 \<Longrightarrow> ?M k' = Some (v', n') \<Longrightarrow> (n', k') \<in> set rest"
    using link assms(4) by fastforce
  have dom': "dom ((?M(k0 := None))(k \<mapsto> (v, new_node rest))) = set (map snd (rest @ [(new_node rest, k)]))"
    using dm d(3) assms(4) by auto
  show ?thesis
    unfolding invar_def using d kn assms(3,4) new_node_notin[of rest] dom' l link
    by (simp del: dom_fun_upd fun_upd_apply set_map map_append add: fun_upd_apply[abs_def]) auto
qed

subsection \<open>What a lookup does in a state that satisfies the invariant\<close>

lemma subscript_cases [consumes 1, case_names hit throw room full]:
  assumes "invar s"
  obtains
    v n where "m_key_to_value s k = Some (v, n)" "(n, k) \<in> set (m_key_tracker s)" "m_fn s k = Inr v"
      "operator_subscript s k =
        ([], Inr v, s\<lparr>m_key_tracker := filter (\<lambda>y. snd y \<noteq> k) (m_key_tracker s) @ [(n, k)]\<rparr>)"
  | x where "m_key_to_value s k = None" "m_fn s k = Inl x"
      "operator_subscript s k = ([Invoked k], Inl (Fn_threw x), s)"
  | v where "m_key_to_value s k = None" "m_fn s k = Inr v"
      "length (m_key_tracker s) < m_capacity s"
      "operator_subscript s k =
        ([Invoked k], Inr v,
         s\<lparr>m_key_tracker := m_key_tracker s @ [(new_node (m_key_tracker s), k)],
           m_key_to_value := (m_key_to_value s)(k \<mapsto> (v, new_node (m_key_tracker s)))\<rparr>)"
  | v n0 k0 rest where "m_key_to_value s k = None" "m_fn s k = Inr v"
      "length (m_key_tracker s) = m_capacity s" "m_key_tracker s = (n0, k0) # rest"
      "operator_subscript s k =
        ([Invoked k, Evicted k0], Inr v,
         s\<lparr>m_key_tracker := rest @ [(new_node rest, k)],
           m_key_to_value := ((m_key_to_value s)(k0 := None))(k \<mapsto> (v, new_node rest))\<rparr>)"
proof (cases "m_key_to_value s k")
  case None
  show ?thesis
  proof (cases "m_fn s k")
    case (Inl x)
    show ?thesis
      by (rule that(2)[OF None Inl subscript_throw[OF None Inl]])
  next
    case (Inr v)
    show ?thesis
    proof (cases "length (m_key_tracker s) = m_capacity s")
      case True
      from subscript_miss_full[OF assms None Inr True]
      obtain n0 k0 rest where a: "m_key_tracker s = (n0, k0) # rest"
        and b: "operator_subscript s k =
        ([Invoked k, Evicted k0], Inr v,
         s\<lparr>m_key_tracker := rest @ [(new_node rest, k)],
           m_key_to_value := ((m_key_to_value s)(k0 := None))(k \<mapsto> (v, new_node rest))\<rparr>)"
        by (elim exE conjE)
      show ?thesis
        by (rule that(4)[OF None Inr True a b])
    next
      case False
      moreover from assms have "length (m_key_tracker s) \<le> m_capacity s" by (simp add: invar_def)
      ultimately have lt: "length (m_key_tracker s) < m_capacity s" by simp
      show ?thesis
        by (rule that(3)[OF None Inr lt subscript_miss_room[OF assms None Inr False]])
    qed
  qed
next
  case (Some e)
  obtain v n where e: "e = (v, n)" by (cases e)
  with Some have h: "m_key_to_value s k = Some (v, n)" by simp
  with assms have l: "(n, k) \<in> set (m_key_tracker s)" "m_fn s k = Inr v"
    unfolding invar_def by blast+
  show ?thesis
    by (rule that(1)[OF h l subscript_hit[OF assms h]])
qed

lemma invar_subscript:
  assumes "invar s" "operator_subscript s k = (evs, r, s1)"
  shows "invar s1 \<and> m_fn s1 = m_fn s \<and> m_capacity s1 = m_capacity s \<and>
    (\<forall>e. r = Inl e \<longrightarrow> \<not> fatal e)"
  using assms(1)
proof (cases rule: subscript_cases[where k = k])
  case (hit v n)
  with assms invar_hit[OF assms(1) hit(1)] show ?thesis by auto
next
  case (throw x)
  with assms show ?thesis by auto
next
  case (room v)
  with assms invar_miss_room[OF assms(1) room(1,2)] show ?thesis by auto
next
  case (full v n0 k0 rest)
  with assms invar_miss_full[OF assms(1) full(1,2,4)] show ?thesis by auto
qed

subsection \<open>Runs\<close>

lemma evictions_append: "evictions (xs @ ys) = evictions xs @ evictions ys"
  by (induction xs rule: evictions.induct) auto

lemma invocations_append: "invocations (xs @ ys) = invocations xs @ invocations ys"
  by (induction xs rule: invocations.induct) auto

lemma front_invar:
  assumes "invar s"
  shows "front s = (Inr (case m_key_tracker s of [] \<Rightarrow> None | (n, k) # rest \<Rightarrow> Some k), s)"
proof (cases "m_key_tracker s")
  case Nil
  then show ?thesis by (simp add: front_def)
next
  case (Cons x rest)
  obtain n k where x: "x = (n, k)" by (cases x)
  with Cons assms have "k \<in> dom (m_key_to_value s)" by (simp add: invar_def)
  then obtain e where "m_key_to_value s k = Some e" by auto
  with Cons x show ?thesis by (simp add: front_def find_cache_def)
qed

lemma invar_perform:
  assumes "invar s" "perform s c = (evs, r, s1)"
  shows "invar s1 \<and> m_fn s1 = m_fn s \<and> m_capacity s1 = m_capacity s \<and>
    (\<forall>e. r = Inl e \<longrightarrow> \<not> fatal e)"
proof (cases c)
  case (Subscript k)
  obtain evs' r' s' where o: "operator_subscript s k = (evs', r', s')"
    by (cases "operator_subscript s k") auto
  from invar_subscript[OF assms(1) o] assms(2) Subscript o show ?thesis
    by (cases r') (auto simp: perform_def)
next
  case Front
  with assms front_invar[OF assms(1)] show ?thesis
    by (auto simp: perform_def)
qed (use assms in \<open>auto simp: perform_def\<close>)

lemma run_invar:
  "invar s \<Longrightarrow> \<exists>evs s'. run s cs = Inr (evs, s') \<and> invar s' \<and> m_fn s' = m_fn s \<and>
     m_capacity s' = m_capacity s"
proof (induction cs arbitrary: s)
  case Nil
  then show ?case by simp
next
  case (Cons c cs)
  obtain evs r s1 where p: "perform s c = (evs, r, s1)"
    by (cases "perform s c") auto
  from invar_perform[OF Cons.prems p]
  have i: "invar s1" and f: "m_fn s1 = m_fn s" "m_capacity s1 = m_capacity s"
    and nf: "\<And>e. r = Inl e \<Longrightarrow> \<not> fatal e" by auto
  from Cons.IH[OF i] obtain evs' s' where
    r: "run s1 cs = Inr (evs', s')" "invar s'" "m_fn s' = m_fn s1" "m_capacity s' = m_capacity s1"
    by blast
  have "run s (c # cs) = Inr (evs @ evs', s')"
    using p r(1) nf by (cases r) auto
  with r f show ?case by simp
qed

lemma reachable_invar:
  assumes "lru_cache_using_std f c = Inr s0" "run s0 cs = Inr (evs, s)"
  shows "invar s \<and> m_fn s = f \<and> m_capacity s = c"
proof -
  from assms(1) have c: "c \<noteq> 0" and s0: "m_fn s0 = f" "m_capacity s0 = c"
    by (auto simp: lru_cache_using_std_def Let_def split: if_splits)
  from invar_init[OF c assms(1)] run_invar[of s0 cs] assms(2) s0 show ?thesis by auto
qed

subsection \<open>Lookups on the list of keys\<close>

lemma keys_filter: "map snd (filter (\<lambda>y. snd y \<noteq> k) xs) = filter (\<lambda>x. x \<noteq> k) (map snd xs)"
  by (induction xs) auto

lemma keys_dom: "invar s \<Longrightarrow> (k \<in> set (keys_of s)) = (m_key_to_value s k \<noteq> None)"
  unfolding invar_def keys_of_def by (metis domIff)

lemma find_cache_None: "(find_cache s k = None) = (m_key_to_value s k = None)"
  by (simp add: find_cache_def split: option.splits)

lemma find_cache_Some: "(find_cache s k = Some k') = (k' = k \<and> m_key_to_value s k \<noteq> None)"
  by (auto simp: find_cache_def split: option.splits)

text \<open>A lookup as seen on the list of keys: the access list is an LRU queue.\<close>

lemma subscript_keys:
  assumes "invar s" "m_fn s k = Inr v"
  shows "\<exists>evs s'. operator_subscript s k = (evs, Inr v, s') \<and> invar s' \<and>
    m_fn s' = m_fn s \<and> m_capacity s' = m_capacity s \<and>
    keys_of s' =
      (if k \<in> set (keys_of s) then filter (\<lambda>x. x \<noteq> k) (keys_of s)
       else if length (keys_of s) = m_capacity s then tl (keys_of s)
       else keys_of s) @ [k] \<and>
    evictions evs =
      (if k \<notin> set (keys_of s) \<and> length (keys_of s) = m_capacity s then [hd (keys_of s)] else []) \<and>
    invocations evs = (if k \<in> set (keys_of s) then [] else [k])"
proof -
  note kd = keys_dom[OF assms(1), of k]
  from assms(1) show ?thesis
  proof (cases rule: subscript_cases[where k = k])
    case (hit v' n)
    from invar_subscript[OF assms(1) hit(4)] hit assms(2) kd show ?thesis
      by (simp add: keys_of_def keys_filter)
  next
    case (throw x)
    with assms(2) show ?thesis by simp
  next
    case (room v')
    from invar_subscript[OF assms(1) room(4)] room assms(2) kd show ?thesis
      by (simp add: keys_of_def)
  next
    case (full v' n0 k0 rest)
    from invar_subscript[OF assms(1) full(5)] full assms(2) kd show ?thesis
      by (simp add: keys_of_def)
  qed
qed

subsection \<open>Runs of lookups\<close>

lemma run_Subscript:
  assumes "operator_subscript s k = (evs, r, s1)" "\<And>e. r = Inl e \<Longrightarrow> \<not> fatal e"
  shows "run s (Subscript k # cs) = map_sum id (\<lambda>(evs', s2). (evs @ evs', s2)) (run s1 cs)"
  using assms by (cases r) (auto simp: perform_def)

text \<open>Lookups of fresh keys, one after the other: a queue that drops its head when full.\<close>

lemma run_fresh_keys:
  assumes "invar s" "distinct ks" "set ks \<inter> set (keys_of s) = {}" "\<forall>k\<in>set ks. \<not> isl (m_fn s k)"
  shows "\<exists>evs s'. run s (map Subscript ks) = Inr (evs, s') \<and> invar s' \<and>
    keys_of s' = drop (length (keys_of s @ ks) - m_capacity s) (keys_of s @ ks) \<and>
    evictions evs = take (length (keys_of s @ ks) - m_capacity s) (keys_of s @ ks) \<and>
    invocations evs = ks"
  using assms
proof (induction ks arbitrary: s)
  case Nil
  then have "length (keys_of s) \<le> m_capacity s" by (simp add: invar_def keys_of_def)
  with Nil show ?case by simp
next
  case (Cons k ks)
  from Cons.prems(4) obtain v where v: "m_fn s k = Inr v" by (cases "m_fn s k") auto
  from Cons.prems(3) have nk: "k \<notin> set (keys_of s)" by auto
  from Cons.prems(1) have le: "length (keys_of s) \<le> m_capacity s" and pos: "0 < m_capacity s"
    by (simp_all add: invar_def keys_of_def)
  from subscript_keys[OF Cons.prems(1) v] nk obtain evs s1 where
    o: "operator_subscript s k = (evs, Inr v, s1)" and i1: "invar s1"
    and f1: "m_fn s1 = m_fn s" and c1: "m_capacity s1 = m_capacity s"
    and k1: "keys_of s1 = (if length (keys_of s) = m_capacity s then tl (keys_of s) else keys_of s) @ [k]"
    and e1: "evictions evs = (if length (keys_of s) = m_capacity s then [hd (keys_of s)] else [])"
    and n1: "invocations evs = [k]"
    by auto
  have d1: "distinct ks" using Cons.prems(2) by simp
  have "set (tl (keys_of s)) \<subseteq> set (keys_of s)"
    by (cases "keys_of s") auto
  then have "set (keys_of s1) \<subseteq> insert k (set (keys_of s))"
    unfolding k1 by auto
  with Cons.prems(2,3) have x1: "set ks \<inter> set (keys_of s1) = {}" by auto
  have t1: "\<forall>k\<in>set ks. \<not> isl (m_fn s1 k)" using Cons.prems(4) f1 by simp
  from Cons.IH[OF i1 d1 x1 t1] obtain evs' s' where
    r: "run s1 (map Subscript ks) = Inr (evs', s')" and i': "invar s'"
    and k': "keys_of s' = drop (length (keys_of s1 @ ks) - m_capacity s1) (keys_of s1 @ ks)"
    and e': "evictions evs' = take (length (keys_of s1 @ ks) - m_capacity s1) (keys_of s1 @ ks)"
    and n': "invocations evs' = ks"
    by blast
  have run: "run s (map Subscript (k # ks)) = Inr (evs @ evs', s')"
    using run_Subscript[OF o, of "map Subscript ks"] r by simp
  show ?case
  proof (cases "length (keys_of s) = m_capacity s")
    case True
    with pos obtain k0 rest where kr: "keys_of s = k0 # rest" by (cases "keys_of s") auto
    with True have len: "m_capacity s = Suc (length rest)" by simp
    from run i' k' e' n' k1 e1 n1 c1 kr len show ?thesis
      by (simp add: evictions_append invocations_append)
  next
    case False
    from run i' k' e' n' k1 e1 n1 c1 False show ?thesis
      by (simp add: evictions_append invocations_append)
  qed
qed

lemma perform_resident:
  assumes "invar s" "m_key_to_value s k \<noteq> None" "perform s c = (evs, r, s1)"
    "k \<notin> set (evictions evs)"
  shows "k \<notin> set (invocations evs) \<and> m_key_to_value s1 k \<noteq> None"
proof (cases c)
  case (Subscript k')
  from assms(1) show ?thesis
  proof (cases rule: subscript_cases[where k = k'])
    case (hit v n)
    with assms Subscript show ?thesis by (auto simp: perform_def)
  next
    case (throw x)
    with assms Subscript show ?thesis by (auto simp: perform_def)
  next
    case (room v)
    with assms Subscript show ?thesis by (auto simp: perform_def)
  next
    case (full v n0 k0 rest)
    with assms Subscript show ?thesis by (auto simp: perform_def)
  qed
next
  case Front
  with assms front_invar[OF assms(1)] show ?thesis by (auto simp: perform_def)
qed (use assms in \<open>auto simp: perform_def\<close>)

lemma run_resident:
  assumes "invar s" "m_key_to_value s k \<noteq> None" "run s cs = Inr (evs, s')"
    "k \<notin> set (evictions evs)"
  shows "k \<notin> set (invocations evs) \<and> m_key_to_value s' k \<noteq> None"
  using assms
proof (induction cs arbitrary: s evs s')
  case Nil
  then show ?case by auto
next
  case (Cons c cs)
  obtain e1 r s1 where p: "perform s c = (e1, r, s1)"
    by (cases "perform s c") auto
  from invar_perform[OF Cons.prems(1) p]
  have i1: "invar s1" and nf: "\<And>e. r = Inl e \<Longrightarrow> \<not> fatal e" by auto
  from run_invar[OF i1, of cs] obtain e2 s2 where r2: "run s1 cs = Inr (e2, s2)" by blast
  have "run s (c # cs) = Inr (e1 @ e2, s2)"
    using p r2 nf by (cases r) auto
  with Cons.prems(3) have eq: "evs = e1 @ e2" "s' = s2" by simp_all
  with Cons.prems(4) have ne: "k \<notin> set (evictions e1)" "k \<notin> set (evictions e2)"
    by (simp_all add: evictions_append)
  from perform_resident[OF Cons.prems(1,2) p ne(1)]
  have a: "k \<notin> set (invocations e1)" "m_key_to_value s1 k \<noteq> None" by simp_all
  from Cons.IH[OF i1 a(2) r2 ne(2)] a(1) eq show ?case
    by (simp add: invocations_append)
qed

subsection \<open>The example data\<close>

lemmas cache_defs = lru_cache_using_std_def perform_def operator_subscript_def insert_cache_def
  evict_def size_cache_def find_cache_def splice_end_def map_insert_def front_def
  capacity_def empty_cache_def keys_of_def get_keys_def Let_def

lemma cache_new_constructed: "lru_cache_using_std square 2 = Inr cache_new"
  by (simp add: lru_cache_using_std_def cache_new_def Let_def)

lemma cache_2_3_reached:
  "run cache_new [Subscript 2, Subscript 3] = Inr ([Invoked 2, Invoked 3], cache_2_3)"
  by (simp add: cache_new_def cache_2_3_def square_def cache_defs)



section \<open>The claims\<close>

text \<open>
  C1. In a state reached from a freshly constructed cache over \<open>f\<close>, \<open>operator[]\<close> at \<open>k\<close>
  returns \<open>f k\<close>, and throws what \<open>f\<close> throws at \<open>k\<close> when it throws. When \<open>k\<close> has no
  record, \<open>f\<close> is called once, with \<open>k\<close>, and the value it returns is recorded for \<open>k\<close>;
  when \<open>k\<close> has a record, its value is \<open>f k\<close>, it is the value returned, and \<open>f\<close> is
  not called.
\<close>

theorem lookup_returns_function_value:
  assumes "lru_cache_using_std f c = Inr s0" "run s0 cs = Inr (evs0, s)"
  shows "\<exists>evs r s'. operator_subscript s k = (evs, r, s') \<and>
     r = (case f k of Inl x \<Rightarrow> Inl (Fn_threw x) | Inr v \<Rightarrow> Inr v) \<and>
     (find_cache s k = None \<longrightarrow>
        invocations evs = [k] \<and>
        (\<forall>v. f k = Inr v \<longrightarrow> (\<exists>it. m_key_to_value s' k = Some (v, it)))) \<and>
     (\<forall>v it. m_key_to_value s k = Some (v, it) \<longrightarrow>
        f k = Inr v \<and> r = Inr v \<and> invocations evs = [])"
proof -
  from reachable_invar[OF assms] have i: "invar s" and f: "m_fn s = f" by simp_all
  from i show ?thesis
  proof (cases rule: subscript_cases[where k = k])
    case (hit v n)
    with f show ?thesis by (simp add: find_cache_None)
  next
    case (throw x)
    with f show ?thesis by (simp add: find_cache_None)
  next
    case (room v)
    with f show ?thesis by (simp add: find_cache_None)
  next
    case (full v n0 k0 rest)
    with f show ?thesis by (simp add: find_cache_None)
  qed
qed

theorem lookup_returns_function_value_witness:
  "lru_cache_using_std square 2 = Inr cache_new \<and>
   run cache_new [Subscript 2, Subscript 3] = Inr ([Invoked 2, Invoked 3], cache_2_3) \<and>
   (\<exists>evs s'. operator_subscript cache_2_3 4 = (evs, Inr 16, s') \<and>
      find_cache cache_2_3 4 = None \<and> invocations evs = [4] \<and>
      (\<exists>it. m_key_to_value s' 4 = Some (16, it))) \<and>
   (\<exists>evs s'. operator_subscript cache_2_3 3 = (evs, Inr 9, s') \<and>
      m_key_to_value cache_2_3 3 = Some (9, 1) \<and> invocations evs = [])"
proof -
  have a: "find_cache cache_2_3 4 = None" "m_key_to_value cache_2_3 3 = Some (9, 1)"
    "square 4 = Inr 16" "square 3 = Inr 9"
    by (simp_all add: find_cache_def cache_2_3_def square_def)
  from lookup_returns_function_value [OF cache_new_constructed cache_2_3_reached, of 4] a
  have "\<exists>evs s'. operator_subscript cache_2_3 4 = (evs, Inr 16, s') \<and>
      find_cache cache_2_3 4 = None \<and> invocations evs = [4] \<and>
      (\<exists>it. m_key_to_value s' 4 = Some (16, it))"
    by auto
  moreover
  from lookup_returns_function_value [OF cache_new_constructed cache_2_3_reached, of 3] a
  have "\<exists>evs s'. operator_subscript cache_2_3 3 = (evs, Inr 9, s') \<and>
      m_key_to_value cache_2_3 3 = Some (9, 1) \<and> invocations evs = []"
    by auto
  ultimately show ?thesis
    using cache_new_constructed cache_2_3_reached by simp
qed

text \<open>
  C2. For every capacity \<open>c > 0\<close> and every list of more than \<open>c\<close> pairwise distinct keys
  on which the cached function returns, looking the keys up in order in a freshly
  constructed cache leaves exactly the last \<open>c\<close> of them cached, in their order, and
  the keys purged on the way are the others, purged in the order of their lookup.
\<close>

theorem lru_keeps_last_keys:
  assumes "0 < c" "distinct ks" "c < length ks" "\<forall>k\<in>set ks. \<not> isl (f k)"
  shows "\<exists>s0 evs s. lru_cache_using_std f c = Inr s0 \<and>
           run s0 (map Subscript ks) = Inr (evs, s) \<and>
           keys_of s = drop (length ks - c) ks \<and>
           dom (m_key_to_value s) = set (drop (length ks - c) ks) \<and>
           size_cache s = c \<and>
           evictions evs = take (length ks - c) ks"
proof -
  from assms(1) obtain s0 where s0: "lru_cache_using_std f c = Inr s0"
    and e0: "keys_of s0 = []" "m_fn s0 = f" "m_capacity s0 = c"
    by (auto simp: lru_cache_using_std_def keys_of_def Let_def)
  from assms(1) invar_init[OF _ s0] have i0: "invar s0" by simp
  from run_fresh_keys[OF i0 assms(2)] e0 assms(4) obtain evs s where
    r: "run s0 (map Subscript ks) = Inr (evs, s)" and i: "invar s"
    and k: "keys_of s = drop (length ks - c) ks"
    and e: "evictions evs = take (length ks - c) ks"
    by auto
  from i have "dom (m_key_to_value s) = set (keys_of s)"
    by (simp add: invar_def keys_of_def)
  with k have d: "dom (m_key_to_value s) = set (drop (length ks - c) ks)"
    by simp
  from k have "length (m_key_tracker s) = length (drop (length ks - c) ks)"
    by (simp add: keys_of_def flip: length_map[of snd "m_key_tracker s"])
  with assms(3) have "size_cache s = c"
    by (simp add: size_cache_invar[OF i])
  with s0 r k e d show ?thesis by blast
qed

theorem lru_keeps_last_keys_witness:
  "0 < (2::nat) \<and> distinct [1, 2, 3, 4, 5 :: nat] \<and> 2 < length [1, 2, 3, 4, 5 :: nat] \<and>
   \<not> isl (square 1) \<and> \<not> isl (square 2) \<and> \<not> isl (square 3) \<and> \<not> isl (square 4) \<and>
   \<not> isl (square 5) \<and>
   (\<exists>s0 evs s. lru_cache_using_std square 2 = Inr s0 \<and>
      run s0 (map Subscript [1, 2, 3, 4, 5]) = Inr (evs, s) \<and>
      keys_of s = [4, 5] \<and> dom (m_key_to_value s) = {4, 5} \<and> size_cache s = 2 \<and>
      evictions evs = [1, 2, 3])"
proof -
  have a: "0 < (2::nat)" "distinct [1, 2, 3, 4, 5 :: nat]" "2 < length [1, 2, 3, 4, 5 :: nat]"
    "\<forall>k\<in>set [1, 2, 3, 4, 5]. \<not> isl (square k)"
    by (simp_all add: square_def)
  from lru_keeps_last_keys [OF a] a show ?thesis
    by (simp add: insert_commute)
qed

text \<open>
  C3. With capacity \<open>2\<close> and three distinct keys \<open>A\<close>, \<open>B\<close>, \<open>C\<close> on which the cached
  function returns, the lookups \<open>A\<close>, \<open>B\<close>, \<open>A\<close>, \<open>C\<close> on a freshly constructed cache
  purge \<open>B\<close> and nothing else, and leave exactly \<open>A\<close> and \<open>C\<close> cached, \<open>A\<close> the
  least recently used.
\<close>

theorem hit_promotes:
  assumes "distinct [A, B, C]" "\<not> isl (f A)" "\<not> isl (f B)" "\<not> isl (f C)"
  shows "\<exists>s0 evs s. lru_cache_using_std f 2 = Inr s0 \<and>
           run s0 [Subscript A, Subscript B, Subscript A, Subscript C] = Inr (evs, s) \<and>
           evictions evs = [B] \<and> invocations evs = [A, B, C] \<and>
           keys_of s = [A, C] \<and> dom (m_key_to_value s) = {A, C}"
proof -
  from assms obtain a b c' where v: "f A = Inr a" "f B = Inr b" "f C = Inr c'"
    by (cases "f A"; cases "f B"; cases "f C") auto
  from assms(1) have ne: "A \<noteq> B" "A \<noteq> C" "B \<noteq> C" by auto
  obtain s0 where s0: "lru_cache_using_std f 2 = Inr s0"
    and e0: "keys_of s0 = []" "m_fn s0 = f" "m_capacity s0 = 2"
    by (auto simp: lru_cache_using_std_def keys_of_def Let_def)
  from invar_init[OF _ s0] have i0: "invar s0" by simp
  from subscript_keys[OF i0, of A a] v e0 obtain e1 s1 where
    o1: "operator_subscript s0 A = (e1, Inr a, s1)" and i1: "invar s1"
    and f1: "m_fn s1 = f" "m_capacity s1 = 2" and k1: "keys_of s1 = [A]"
    and t1: "evictions e1 = []" "invocations e1 = [A]"
    by auto
  from subscript_keys[OF i1, of B b] v f1 k1 ne obtain e2 s2 where
    o2: "operator_subscript s1 B = (e2, Inr b, s2)" and i2: "invar s2"
    and f2: "m_fn s2 = f" "m_capacity s2 = 2" and k2: "keys_of s2 = [A, B]"
    and t2: "evictions e2 = []" "invocations e2 = [B]"
    by auto
  from subscript_keys[OF i2, of A a] v f2 k2 ne obtain e3 s3 where
    o3: "operator_subscript s2 A = (e3, Inr a, s3)" and i3: "invar s3"
    and f3: "m_fn s3 = f" "m_capacity s3 = 2" and k3: "keys_of s3 = [B, A]"
    and t3: "evictions e3 = []" "invocations e3 = []"
    by auto
  from subscript_keys[OF i3, of C c'] v f3 k3 ne obtain e4 s4 where
    o4: "operator_subscript s3 C = (e4, Inr c', s4)" and i4: "invar s4"
    and k4: "keys_of s4 = [A, C]"
    and t4: "evictions e4 = [B]" "invocations e4 = [C]"
    by auto
  have r4: "run s3 [Subscript C] = Inr (e4, s4)"
    using run_Subscript[OF o4, of "[]"] by simp
  have r3: "run s2 [Subscript A, Subscript C] = Inr (e3 @ e4, s4)"
    using run_Subscript[OF o3, of "[Subscript C]"] r4 by simp
  have r2: "run s1 [Subscript B, Subscript A, Subscript C] = Inr (e2 @ e3 @ e4, s4)"
    using run_Subscript[OF o2, of "[Subscript A, Subscript C]"] r3 by simp
  have r: "run s0 [Subscript A, Subscript B, Subscript A, Subscript C]
      = Inr (e1 @ e2 @ e3 @ e4, s4)"
    using run_Subscript[OF o1, of "[Subscript B, Subscript A, Subscript C]"] r2 by simp
  from i4 have "dom (m_key_to_value s4) = set (keys_of s4)"
    by (simp add: invar_def keys_of_def)
  with k4 have d: "dom (m_key_to_value s4) = {A, C}" by simp
  from s0 r k4 d t1 t2 t3 t4 show ?thesis
    by (simp add: evictions_append invocations_append)
qed

theorem hit_promotes_witness:
  "distinct [2, 3, 4 :: nat] \<and> \<not> isl (square 2) \<and> \<not> isl (square 3) \<and> \<not> isl (square 4) \<and>
   (\<exists>s0 evs s. lru_cache_using_std square 2 = Inr s0 \<and>
      run s0 [Subscript 2, Subscript 3, Subscript 2, Subscript 4] = Inr (evs, s) \<and>
      evictions evs = [3] \<and> invocations evs = [2, 3, 4] \<and>
      keys_of s = [2, 4] \<and> dom (m_key_to_value s) = {2, 4})"
proof -
  have a: "distinct [2, 3, 4 :: nat]" "\<not> isl (square 2)" "\<not> isl (square 3)"
    "\<not> isl (square 4)"
    by (simp_all add: square_def)
  from hit_promotes [OF a] a show ?thesis
    by simp
qed

text \<open>
  C4. For every capacity \<open>c > 0\<close> and every sequence of calls on a freshly constructed
  cache (any sequence of lookups is one), the run neither fails an assertion nor has
  undefined behaviour, and after every call \<open>size() \<le> capacity()\<close>, the capacity
  being the one given at construction.
\<close>

theorem capacity_bound:
  assumes "0 < c"
  shows "\<exists>s0. lru_cache_using_std f c = Inr s0 \<and>
           (\<forall>n. \<exists>evs s. run s0 (take n cs) = Inr (evs, s) \<and>
              capacity s = c \<and> size_cache s \<le> capacity s)"
proof -
  from assms obtain s0 where s0: "lru_cache_using_std f c = Inr s0"
    by (auto simp: lru_cache_using_std_def Let_def)
  from assms invar_init[OF _ s0] have i0: "invar s0" by simp
  have "\<exists>evs s. run s0 (take n cs) = Inr (evs, s) \<and> capacity s = c \<and>
      size_cache s \<le> capacity s" for n
  proof -
    from run_invar[OF i0, of "take n cs"] obtain evs s where
      r: "run s0 (take n cs) = Inr (evs, s)"
      by blast
    from reachable_invar[OF s0 r] have i: "invar s" and c: "m_capacity s = c" by simp_all
    from i have "size_cache s \<le> capacity s"
      by (simp add: size_cache_invar capacity_def invar_def)
    with r c show ?thesis by (simp add: capacity_def)
  qed
  with s0 show ?thesis by blast
qed

theorem capacity_bound_witness:
  "0 < (2::nat) \<and>
   (\<exists>s0. lru_cache_using_std square 2 = Inr s0 \<and>
      (\<forall>n. \<exists>evs s.
         run s0 (take n [Subscript 2, Subscript 3, Subscript 2, Subscript 4]) = Inr (evs, s) \<and>
         capacity s = 2 \<and> size_cache s \<le> capacity s))"
  using capacity_bound [of 2 square "[Subscript 2, Subscript 3, Subscript 2, Subscript 4]"]
  by simp

text \<open>
  C5. In the state after any sequence of calls on a freshly constructed cache, the keys of
  the map are the keys of the access list, no key occurs twice in the list, no two nodes
  share an identity, and the iterator kept in the record of a key refers to the node of
  the list that holds this key. (By C4 every such sequence of calls does end in a state.)
\<close>

theorem index_matches_order:
  assumes "lru_cache_using_std f c = Inr s0" "run s0 cs = Inr (evs, s)"
  shows "dom (m_key_to_value s) = set (keys_of s) \<and>
         distinct (keys_of s) \<and>
         distinct (map fst (m_key_tracker s)) \<and>
         (\<forall>k v it. m_key_to_value s k = Some (v, it) \<longrightarrow>
            List.find (\<lambda>x. fst x = it) (m_key_tracker s) = Some (it, k))"
proof -
  from reachable_invar[OF assms] have i: "invar s" by simp
  then have d: "distinct (map fst (m_key_tracker s))" by (simp add: invar_def)
  have "\<And>k v it. m_key_to_value s k = Some (v, it) \<Longrightarrow>
      List.find (\<lambda>x. fst x = it) (m_key_tracker s) = Some (it, k)"
  proof -
    fix k v it assume "m_key_to_value s k = Some (v, it)"
    with i have "(it, k) \<in> set (m_key_tracker s)" unfolding invar_def by blast
    with d show "List.find (\<lambda>x. fst x = it) (m_key_tracker s) = Some (it, k)"
      by (rule find_node)
  qed
  with i d show ?thesis
    unfolding keys_of_def invar_def by blast
qed

theorem index_matches_order_witness:
  "lru_cache_using_std square 2 = Inr cache_new \<and>
   run cache_new [Subscript 2, Subscript 3] = Inr ([Invoked 2, Invoked 3], cache_2_3) \<and>
   dom (m_key_to_value cache_2_3) = set (keys_of cache_2_3) \<and>
   keys_of cache_2_3 = [2, 3] \<and> distinct (keys_of cache_2_3) \<and>
   m_key_to_value cache_2_3 3 = Some (9, 1) \<and>
   List.find (\<lambda>x. fst x = 1) (m_key_tracker cache_2_3) = Some (1, 3)"
proof -
  have a: "m_key_to_value cache_2_3 3 = Some (9, 1)" "keys_of cache_2_3 = [2, 3]"
    by (simp_all add: cache_2_3_def keys_of_def)
  from index_matches_order [OF cache_new_constructed cache_2_3_reached]
  have "dom (m_key_to_value cache_2_3) = set (keys_of cache_2_3)"
    "distinct (keys_of cache_2_3)"
    "\<And>k v it. m_key_to_value cache_2_3 k = Some (v, it) \<Longrightarrow>
       List.find (\<lambda>x. fst x = it) (m_key_tracker cache_2_3) = Some (it, k)"
    by blast+
  from this(1,2) this(3)[OF a(1)] a cache_new_constructed cache_2_3_reached
  show ?thesis by simp
qed

text \<open>
  C6. In a state reached from a freshly constructed cache where \<open>k\<close> has no record and
  the cached function returns at \<open>k\<close>, consider a lookup of \<open>k\<close> followed by any calls
  during which \<open>k\<close> is not purged. The function is called with \<open>k\<close> exactly once in
  this run, by the first lookup, and \<open>k\<close> has a record at its end.
\<close>

theorem computed_once_while_resident:
  assumes "lru_cache_using_std f c = Inr s0" "run s0 cs0 = Inr (evs0, s)"
    and "find_cache s k = None" "\<not> isl (f k)"
    and "run s (Subscript k # cs) = Inr (evs, s')"
    and "k \<notin> set (evictions evs)"
  shows "(\<exists>rest. invocations evs = k # rest \<and> k \<notin> set rest) \<and> find_cache s' k = Some k"
proof -
  from reachable_invar[OF assms(1,2)] have i: "invar s" and f: "m_fn s = f" by simp_all
  from assms(4) f obtain v where v: "m_fn s k = Inr v" by (cases "f k") auto
  from assms(3) have nk: "k \<notin> set (keys_of s)"
    by (simp add: keys_dom[OF i] find_cache_None)
  from subscript_keys[OF i v] nk obtain e1 s1 where
    o: "operator_subscript s k = (e1, Inr v, s1)" and i1: "invar s1"
    and k1: "k \<in> set (keys_of s1)" and n1: "invocations e1 = [k]"
    by auto
  from run_invar[OF i1, of cs] obtain e2 s2 where r2: "run s1 cs = Inr (e2, s2)" by blast
  from run_Subscript[OF o, of cs] r2 assms(5) have eq: "evs = e1 @ e2" "s' = s2" by simp_all
  from k1 have m1: "m_key_to_value s1 k \<noteq> None" by (simp add: keys_dom[OF i1])
  from assms(6) eq have "k \<notin> set (evictions e2)" by (simp add: evictions_append)
  from run_resident[OF i1 m1 r2 this] eq n1 show ?thesis
    by (simp add: invocations_append find_cache_Some)
qed

theorem computed_once_while_resident_witness:
  "lru_cache_using_std square 2 = Inr cache_new \<and> run cache_new [] = Inr ([], cache_new) \<and>
   find_cache cache_new 2 = None \<and> \<not> isl (square 2) \<and>
   (\<exists>evs s'. run cache_new [Subscript 2, Subscript 3, Subscript 2, Subscript 4, Subscript 2]
        = Inr (evs, s') \<and>
      evictions evs = [3] \<and> invocations evs = [2, 3, 4] \<and> find_cache s' 2 = Some 2)"
proof -
  have a: "run cache_new [] = Inr ([], cache_new)" "find_cache cache_new 2 = None"
    "\<not> isl (square 2)"
    by (simp_all add: find_cache_def cache_new_def square_def)
  have "\<exists>evs s'. run cache_new [Subscript 2, Subscript 3, Subscript 2, Subscript 4, Subscript 2]
        = Inr (evs, s') \<and> evictions evs = [3] \<and> invocations evs = [2, 3, 4]"
    by (simp add: cache_new_def square_def cache_defs)
  then obtain evs s' where
    r: "run cache_new [Subscript 2, Subscript 3, Subscript 2, Subscript 4, Subscript 2]
        = Inr (evs, s')" and e: "evictions evs = [3]" "invocations evs = [2, 3, 4]"
    by blast
  from e have "2 \<notin> set (evictions evs)" by simp
  from computed_once_while_resident [OF cache_new_constructed a r this]
  have "find_cache s' 2 = Some 2" by simp
  with cache_new_constructed a r e show ?thesis by blast
qed

text \<open>
  C7. When \<open>k\<close> has no record and the cached function throws at \<open>k\<close>, \<open>operator[]\<close>
  throws what the function threw and the cache is the one before the call: nothing is
  purged, \<open>k\<close> has no record, \<open>size()\<close> is unchanged, and the next lookup of \<open>k\<close>
  calls the function again.
\<close>

theorem failure_leaves_cache:
  assumes "find_cache s k = None" "m_fn s k = Inl x"
  shows "\<exists>evs r s'. operator_subscript s k = (evs, r, s') \<and>
           r = Inl (Fn_threw x) \<and> s' = s \<and> evictions evs = [] \<and>
           find_cache s' k = None \<and> size_cache s' = size_cache s \<and>
           invocations (fst (operator_subscript s' k)) = [k]"
proof -
  from assms(1) have "m_key_to_value s k = None"
    by (simp add: find_cache_def split: option.splits)
  from subscript_throw[OF this assms(2)] assms(1) show ?thesis by simp
qed

theorem failure_leaves_cache_witness:
  "find_cache cache_2_3 10 = None \<and> m_fn cache_2_3 10 = Inl ''out of range'' \<and>
   (\<exists>evs r s'. operator_subscript cache_2_3 10 = (evs, r, s') \<and>
      r = Inl (Fn_threw ''out of range'') \<and> s' = cache_2_3 \<and> evictions evs = [] \<and>
      find_cache s' 10 = None \<and> size_cache s' = size_cache cache_2_3 \<and>
      invocations (fst (operator_subscript s' 10)) = [10])"
proof -
  have a: "find_cache cache_2_3 10 = None"
    by (simp add: find_cache_def cache_2_3_def)
  have b: "m_fn cache_2_3 10 = Inl ''out of range''"
    by (simp add: cache_2_3_def square_def)
  from failure_leaves_cache [OF a b] a b show ?thesis
    by blast
qed

text \<open>
  C8. Construction with capacity \<open>0\<close> fails the assertion of the constructor, so no cache
  comes into being; with any capacity \<open>c > 0\<close> it succeeds, and the new cache holds the
  function and the capacity given and has no entries.
\<close>

theorem constructor_refuses_zero:
  "lru_cache_using_std f 0 = Inl Assertion_failed \<and>
   (0 < c \<longrightarrow>
      (\<exists>s. lru_cache_using_std f c = Inr s \<and> m_fn s = f \<and> capacity s = c \<and>
         m_key_tracker s = [] \<and> m_key_to_value s = Map.empty \<and> size_cache s = 0 \<and>
         empty_cache s))"
  by (simp add: lru_cache_using_std_def capacity_def size_cache_def empty_cache_def Let_def)

theorem constructor_refuses_zero_witness:
  "lru_cache_using_std square 0 = Inl Assertion_failed \<and>
   0 < (2::nat) \<and>
   (\<exists>s. lru_cache_using_std square 2 = Inr s \<and> m_fn s = square \<and> capacity s = 2 \<and>
      m_key_tracker s = [] \<and> m_key_to_value s = Map.empty \<and> size_cache s = 0 \<and>
      empty_cache s)"
  using constructor_refuses_zero [of square 2]
  by simp

text \<open>
  C9. In a state reached from a freshly constructed cache, \<open>front()\<close> returns the end
  iterator when the cache is empty; otherwise it returns the iterator to the record of
  the key in the first node of the access list, a record that exists and is linked to
  this node. In both cases the cache is left as it was.
\<close>

theorem front_least_recent:
  assumes "lru_cache_using_std f c = Inr s0" "run s0 cs = Inr (evs, s)"
  shows "(empty_cache s \<longrightarrow> front s = (Inr None, s)) \<and>
         (\<not> empty_cache s \<longrightarrow>
            (\<exists>n k rest v. m_key_tracker s = (n, k) # rest \<and> front s = (Inr (Some k), s) \<and>
               m_key_to_value s k = Some (v, n)))"
proof -
  from reachable_invar[OF assms] have i: "invar s" by simp
  then have dm: "dom (m_key_to_value s) = set (map snd (m_key_tracker s))"
    and ds: "distinct (map snd (m_key_tracker s))"
    by (simp_all add: invar_def)
  show ?thesis
  proof (cases "m_key_tracker s")
    case Nil
    with dm front_invar[OF i] show ?thesis by (simp add: empty_cache_def)
  next
    case (Cons x rest)
    obtain n k where x: "x = (n, k)" by (cases x)
    with Cons dm have "k \<in> dom (m_key_to_value s)" by simp
    then obtain v it where e: "m_key_to_value s k = Some (v, it)" by auto
    with i have "(it, k) \<in> set (m_key_tracker s)" unfolding invar_def by blast
    with ds Cons x have "it = n" by (auto simp: rev_image_eqI)
    with e Cons x dm front_invar[OF i] show ?thesis by (auto simp: empty_cache_def)
  qed
qed

theorem front_least_recent_witness:
  "lru_cache_using_std square 2 = Inr cache_new \<and>
   run cache_new [] = Inr ([], cache_new) \<and>
   run cache_new [Subscript 2, Subscript 3] = Inr ([Invoked 2, Invoked 3], cache_2_3) \<and>
   empty_cache cache_new \<and> front cache_new = (Inr None, cache_new) \<and>
   \<not> empty_cache cache_2_3 \<and> front cache_2_3 = (Inr (Some 2), cache_2_3) \<and>
   m_key_to_value cache_2_3 2 = Some (4, 0)"
proof -
  have e: "empty_cache cache_new" "\<not> empty_cache cache_2_3"
    by (simp_all add: empty_cache_def cache_new_def cache_2_3_def)
  have r: "run cache_new [] = Inr ([], cache_new)" by simp
  from front_least_recent [OF cache_new_constructed r] e(1)
  have "front cache_new = (Inr None, cache_new)" by simp
  moreover from front_least_recent [OF cache_new_constructed cache_2_3_reached] e(2)
  have "front cache_2_3 = (Inr (Some 2), cache_2_3) \<and> m_key_to_value cache_2_3 2 = Some (4, 0)"
    by (auto simp: cache_2_3_def)
  ultimately show ?thesis
    using cache_new_constructed cache_2_3_reached e r by simp
qed

text \<open>
  C10. In a state reached from a freshly constructed cache where \<open>k\<close> has a record,
  \<open>operator[]\<close> returns the value recorded, calls nothing and purges nothing, and
  leaves the function, the capacity, the map and so \<open>size()\<close> and the set of keys
  as they were. The node of \<open>k\<close> is moved to the back of the access list; the other
  keys keep their order.
\<close>

theorem hit_moves_key_only:
  assumes "lru_cache_using_std f c = Inr s0" "run s0 cs = Inr (evs, s)"
    and "m_key_to_value s k = Some (v, it)"
  shows "\<exists>s'. operator_subscript s k = ([], Inr v, s') \<and>
           m_fn s' = m_fn s \<and> m_capacity s' = m_capacity s \<and>
           m_key_to_value s' = m_key_to_value s \<and>
           size_cache s' = size_cache s \<and>
           m_key_tracker s' = filter (\<lambda>y. snd y \<noteq> k) (m_key_tracker s) @ [(it, k)] \<and>
           keys_of s' = filter (\<lambda>x. x \<noteq> k) (keys_of s) @ [k] \<and>
           filter (\<lambda>x. x \<noteq> k) (keys_of s') = filter (\<lambda>x. x \<noteq> k) (keys_of s) \<and>
           set (keys_of s') = set (keys_of s)"
proof -
  from reachable_invar[OF assms(1,2)] have i: "invar s" by simp
  then have "(it, k) \<in> set (m_key_tracker s)" using assms(3) unfolding invar_def by blast
  then have "k \<in> set (keys_of s)" by (auto simp: keys_of_def rev_image_eqI)
  then have st: "set (filter (\<lambda>x. x \<noteq> k) (keys_of s) @ [k]) = set (keys_of s)" by auto
  define s' where "s' = s\<lparr>m_key_tracker := filter (\<lambda>y. snd y \<noteq> k) (m_key_tracker s) @ [(it, k)]\<rparr>"
  have k: "keys_of s' = filter (\<lambda>x. x \<noteq> k) (keys_of s) @ [k]"
    by (simp add: s'_def keys_of_def keys_filter)
  have "operator_subscript s k = ([], Inr v, s')"
    using subscript_hit[OF i assms(3)] by (simp add: s'_def)
  moreover have "m_fn s' = m_fn s" "m_capacity s' = m_capacity s"
    "m_key_to_value s' = m_key_to_value s" "size_cache s' = size_cache s"
    "m_key_tracker s' = filter (\<lambda>y. snd y \<noteq> k) (m_key_tracker s) @ [(it, k)]"
    by (simp_all add: s'_def size_cache_def)
  moreover have "filter (\<lambda>x. x \<noteq> k) (keys_of s') = filter (\<lambda>x. x \<noteq> k) (keys_of s)"
    unfolding k by simp
  moreover have "set (keys_of s') = set (keys_of s)"
    unfolding k by (rule st)
  ultimately show ?thesis using k by blast
qed

theorem hit_moves_key_only_witness:
  "lru_cache_using_std square 2 = Inr cache_new \<and>
   run cache_new [Subscript 2, Subscript 3] = Inr ([Invoked 2, Invoked 3], cache_2_3) \<and>
   m_key_to_value cache_2_3 2 = Some (4, 0) \<and>
   (\<exists>s'. operator_subscript cache_2_3 2 = ([], Inr 4, s') \<and>
      m_key_to_value s' = m_key_to_value cache_2_3 \<and>
      size_cache s' = size_cache cache_2_3 \<and>
      m_key_tracker s' = [(1, 3), (0, 2)] \<and> keys_of s' = [3, 2])"
proof -
  have h: "m_key_to_value cache_2_3 2 = Some (4, 0)"
    by (simp add: cache_2_3_def)
  from hit_moves_key_only [OF cache_new_constructed cache_2_3_reached h]
  obtain s' where "operator_subscript cache_2_3 2 = ([], Inr 4, s')"
    "m_key_to_value s' = m_key_to_value cache_2_3" "size_cache s' = size_cache cache_2_3"
    "m_key_tracker s' = filter (\<lambda>y. snd y \<noteq> 2) (m_key_tracker cache_2_3) @ [(0, 2)]"
    "keys_of s' = filter (\<lambda>x. x \<noteq> 2) (keys_of cache_2_3) @ [2]"
    by blast
  then have "operator_subscript cache_2_3 2 = ([], Inr 4, s') \<and>
      m_key_to_value s' = m_key_to_value cache_2_3 \<and>
      size_cache s' = size_cache cache_2_3 \<and>
      m_key_tracker s' = [(1, 3), (0, 2)] \<and> keys_of s' = [3, 2]"
    by (simp add: cache_2_3_def keys_of_def)
  with cache_new_constructed cache_2_3_reached h show ?thesis by blast
qed

end
